theory Spec2Isabelle
  imports Complex_Main "HOL-Library.Multiset"
begin

section \<open>Data model\<close>

text \<open>
  The analysis scripts work on pandas data frames with the two columns \<open>freq\<close> and
  \<open>imag\<close>, and on NumPy arrays of float64. A data frame is modelled as the list of its rows
  \<open>(freq, imag)\<close> in index order, an array as a list. Floating-point numbers are idealised
  as real numbers: rounding, infinities and NaN are outside the model, except in the section
  on float64 rounding, which models the rounding of the clustering. An argument that may be
  \<open>None\<close> in the source is an \<open>option\<close>.
\<close>

type_synonym dataframe = "(real \<times> real) list"

datatype error = ValueError | IndexError | KeyError

section \<open>Peak detection (ModeVisualizerRun.py)\<close>

text \<open>
  \<open>find_positive_peaks\<close>, lines 87-112. The loop \<open>for i in range(1, len(df) - 1)\<close> appends to
  \<open>peaks\<close>; it is a fold over the index range with the list of peaks as accumulator.
  The loop indexes \<open>y[i - 1]\<close>, \<open>y[i]\<close>, \<open>y[i + 1]\<close> and \<open>x[i]\<close> only for
  \<open>1 \<le> i \<le> len(df) - 2\<close>, so every read is in range and the function has no raising path.
\<close>

definition positive_step :: "real list \<Rightarrow> real list \<Rightarrow> real \<Rightarrow> nat \<Rightarrow> (real \<times> real) list \<Rightarrow> (real \<times> real) list" where
  "positive_step x y level i peaks =
     (if y ! (i - 1) < y ! i \<and> y ! i > y ! (i + 1) \<and> y ! i \<ge> level
      then peaks @ [(x ! i, y ! i)] else peaks)"

definition find_positive_peaks :: "dataframe option \<Rightarrow> real \<Rightarrow> (real \<times> real) list" where
  "find_positive_peaks df level =
     (case df of
        None \<Rightarrow> []
      | Some d \<Rightarrow>
          if d = [] \<or> length d < 3 then []
          else let x = map fst d; y = map snd d
               in fold (positive_step x y level) [1..<length d - 1] [])"

text \<open>\<open>find_negative_peaks\<close>, lines 115-136.\<close>

definition negative_step :: "real list \<Rightarrow> real list \<Rightarrow> real \<Rightarrow> nat \<Rightarrow> (real \<times> real) list \<Rightarrow> (real \<times> real) list" where
  "negative_step x y level i peaks =
     (if y ! (i - 1) > y ! i \<and> y ! i < y ! (i + 1) \<and> y ! i \<le> - level
      then peaks @ [(x ! i, y ! i)] else peaks)"

definition find_negative_peaks :: "dataframe option \<Rightarrow> real \<Rightarrow> (real \<times> real) list" where
  "find_negative_peaks df level =
     (case df of
        None \<Rightarrow> []
      | Some d \<Rightarrow>
          if d = [] \<or> length d < 3 then []
          else let x = map fst d; y = map snd d
               in fold (negative_step x y level) [1..<length d - 1] [])"

text \<open>
  \<open>peaks_from_df\<close>, lines 139-149: the two lists concatenated and sorted by frequency with
  Python's \<open>sorted\<close>, which is stable.
\<close>

definition peaks_from_df :: "dataframe option \<Rightarrow> real \<Rightarrow> (real \<times> real) list" where
  "peaks_from_df df level =
     sort_key fst (find_positive_peaks df level @ find_negative_peaks df level)"

section \<open>Peak detection (ModeAnalyzer.py)\<close>


definition sorts_by_freq :: "(dataframe \<Rightarrow> dataframe) \<Rightarrow> bool" where
  "sorts_by_freq srt \<longleftrightarrow> (\<forall>d. mset (srt d) = mset d \<and> sorted (map fst (srt d)))"

definition analyzer_find_positive_peaks ::
    "(dataframe \<Rightarrow> dataframe) \<Rightarrow> dataframe option \<Rightarrow> real \<Rightarrow> (real \<times> real) list" where
  "analyzer_find_positive_peaks srt df level =
     (case df of
        None \<Rightarrow> []
      | Some d \<Rightarrow>
          if d = [] \<or> length d < 3 then []
          else let d = srt d; x = map fst d; y = map snd d
               in fold (positive_step x y level) [1..<length d - 1] [])"

definition analyzer_find_negative_peaks ::
    "(dataframe \<Rightarrow> dataframe) \<Rightarrow> dataframe option \<Rightarrow> real \<Rightarrow> (real \<times> real) list" where
  "analyzer_find_negative_peaks srt df level =
     (case df of
        None \<Rightarrow> []
      | Some d \<Rightarrow>
          if d = [] \<or> length d < 3 then []
          else let d = srt d; x = map fst d; y = map snd d
               in fold (negative_step x y level) [1..<length d - 1] [])"

text \<open>The conditions of the specification's peak rules at sample \<open>i\<close> of a curve.\<close>

definition is_positive_peak :: "dataframe \<Rightarrow> real \<Rightarrow> nat \<Rightarrow> bool" where
  "is_positive_peak d level i \<longleftrightarrow>
     snd (d ! (i - 1)) < snd (d ! i) \<and> snd (d ! i) > snd (d ! (i + 1)) \<and> snd (d ! i) \<ge> level"

definition is_negative_peak :: "dataframe \<Rightarrow> real \<Rightarrow> nat \<Rightarrow> bool" where
  "is_negative_peak d level i \<longleftrightarrow>
     snd (d ! (i - 1)) > snd (d ! i) \<and> snd (d ! i) < snd (d ! (i + 1)) \<and> snd (d ! i) \<le> - level"

text \<open>
  Whether some positive peak and some negative peak of a curve carry the same frequency.
\<close>

definition pos_neg_same_freq :: "dataframe option \<Rightarrow> real \<Rightarrow> bool" where
  "pos_neg_same_freq df level \<longleftrightarrow>
     (\<exists>p \<in> set (find_positive_peaks df level).
        \<exists>q \<in> set (find_negative_peaks df level). fst p = fst q)"

section \<open>Mode clustering (ModeVisualizerRun.py)\<close>

text \<open>\<open>np.mean\<close> of a cluster: the sum of the members over their number.\<close>

definition mean :: "real list \<Rightarrow> real" where
  "mean c = sum_list c / real (length c)"

text \<open>
  Lines 176-178: the arrays that are neither \<open>None\<close> nor empty are collected in
  \<open>flat_list\<close>.
\<close>

definition collect_arrays :: "real list option list \<Rightarrow> real list list" where
  "collect_arrays all_peak_freqs =
     concat (map (\<lambda>arr. case arr of None \<Rightarrow> [] | Some a \<Rightarrow> if length a > 0 then [a] else [])
               all_peak_freqs)"

text \<open>
  The body of the loop of lines 196-202: \<open>clusters[-1]\<close> is the last cluster of the list;
  the value is appended to it, or a new cluster is appended to the list.
\<close>

definition cluster_step :: "real \<Rightarrow> real \<Rightarrow> real list list \<Rightarrow> real list list" where
  "cluster_step tol f clusters =
     (if \<bar>f - mean (last clusters)\<bar> \<le> tol
      then butlast clusters @ [last clusters @ [f]]
      else clusters @ [[f]])"

text \<open>Lines 193-202 on a non-empty sorted array \<open>flat\<close>.\<close>

definition cluster_pass :: "real \<Rightarrow> real list \<Rightarrow> real list list" where
  "cluster_pass tol flat = fold (cluster_step tol) (tl flat) [[hd flat]]"

text \<open>
  The value of \<open>clusters\<close> when line 206 is reached, and no cluster at all on the two early
  returns of lines 181-187.
\<close>

definition clusters_of :: "real list option list \<Rightarrow> real \<Rightarrow> real list list" where
  "clusters_of all_peak_freqs tol =
     (let flat_list = collect_arrays all_peak_freqs
      in if flat_list = [] then []
         else let flat = concat flat_list
              in if flat = [] then []
                 else cluster_pass tol (sort flat))"

text \<open>\<open>cluster_modes\<close>, lines 155-207.\<close>

definition cluster_modes :: "real list option list \<Rightarrow> real \<Rightarrow> int \<Rightarrow> real list" where
  "cluster_modes all_peak_freqs tol min_count =
     (let flat_list = collect_arrays all_peak_freqs
      in if flat_list = [] then []
         else let flat = concat flat_list
              in if flat = [] then []
                 else let flat = sort flat;
                          clusters = fold (cluster_step tol) (tl flat) [[hd flat]]
                      in map mean (filter (\<lambda>c. int (length c) \<ge> min_count) clusters))"

text \<open>
  The clustering rule in the words of the specification: all frequencies of all channels in
  one flat list; the first value starts a cluster; each later value joins the current cluster
  if it is within the tolerance of the cluster's mean, and otherwise closes it and starts a
  new one.
\<close>

definition all_frequencies :: "real list option list \<Rightarrow> real list" where
  "all_frequencies all_peak_freqs =
     concat (map (\<lambda>arr. case arr of None \<Rightarrow> [] | Some a \<Rightarrow> a) all_peak_freqs)"

fun greedy :: "real \<Rightarrow> real list \<Rightarrow> real list \<Rightarrow> real list list" where
  "greedy tol cur [] = [cur]"
| "greedy tol cur (f # fs) =
     (if \<bar>f - mean cur\<bar> \<le> tol then greedy tol (cur @ [f]) fs
      else cur # greedy tol [f] fs)"

definition greedy_clusters :: "real \<Rightarrow> real list \<Rightarrow> real list list" where
  "greedy_clusters tol flat = (case flat of [] \<Rightarrow> [] | f # fs \<Rightarrow> greedy tol [f] fs)"

section \<open>Mode clustering with float64 rounding\<close>

text \<open>
  The definitions above compute with exact real numbers. NumPy computes in IEEE 754
  binary64: every sum, difference and quotient is rounded to the nearest number with a
  53-bit significand, ties to the even significand. \<open>fl\<close> is that rounding. \<open>rne\<close> rounds to
  the nearest integer, ties to even. \<open>fl_scaled\<close> doubles or halves the magnitude until it
  lies in \<open>[2^52, 2^53)\<close>, where the representable numbers are the integers, rounds there
  and scales back; the exponent is not lowered below -1074, the unit of the subnormal
  numbers. The first argument bounds the number of scaling steps; 2200 covers the whole
  exponent range. Overflow to infinity and NaN are not modelled.
\<close>

definition rne :: "real \<Rightarrow> int" where
  "rne y = (let f = \<lfloor>y\<rfloor>; r = y - of_int f
            in if r < 1 / 2 then f else if 1 / 2 < r then f + 1
               else if even f then f else f + 1)"

fun fl_scaled :: "nat \<Rightarrow> int \<Rightarrow> real \<Rightarrow> real" where
  "fl_scaled 0 e x = of_int (rne x) * 2 powi e"
| "fl_scaled (Suc n) e x =
     (if x < 2 ^ 52 \<and> - 1074 < e then fl_scaled n (e - 1) (2 * x)
      else if 2 ^ 53 \<le> x then fl_scaled n (e + 1) (x / 2)
      else of_int (rne x) * 2 powi e)"

definition fl :: "real \<Rightarrow> real" where
  "fl x = (if x = 0 then 0 else sgn x * fl_scaled 2200 0 \<bar>x\<bar>)"

text \<open>
  \<open>np.mean\<close> in float64: the members are added one rounded addition at a time and the sum
  is divided by the count, rounded. The model adds from left to right. (NumPy may group the
  additions differently; on a cluster whose members are all equal, with up to three
  members, every grouping gives the same sum.)
\<close>

definition mean_f64 :: "real list \<Rightarrow> real" where
  "mean_f64 c = fl (fold (\<lambda>x s. fl (s + x)) c 0 / real (length c))"





section \<open>Shape reconstruction (ModeVisualizerRun.py)\<close>

text \<open>
  The NumPy primitives used by \<open>value_at\<close>. \<open>np.max\<close> and \<open>np.argmin\<close> raise ValueError on
  an empty array; \<open>np.argmin\<close> returns the first index of the minimum; indexing with a
  boolean mask of another length raises IndexError.
\<close>

definition np_max :: "real list \<Rightarrow> error + real" where
  "np_max a = (case a of [] \<Rightarrow> Inl ValueError | v # vs \<Rightarrow> Inr (fold max vs v))"

definition np_argmin :: "real list \<Rightarrow> error + nat" where
  "np_argmin a =
     (if a = [] then Inl ValueError
      else Inr (fold (\<lambda>i best. if a ! i < a ! best then i else best) [1..<length a] 0))"

definition mask_select :: "real list \<Rightarrow> bool list \<Rightarrow> error + real list" where
  "mask_select y m =
     (if length m \<noteq> length y then Inl IndexError
      else Inr (map fst (filter snd (zip y m))))"

text \<open>
  \<open>first_min a m r\<close>: among the first \<open>m\<close> entries of \<open>a\<close>, index \<open>r\<close> holds the least
  value, and no earlier index holds it.
\<close>

definition first_min :: "real list \<Rightarrow> nat \<Rightarrow> nat \<Rightarrow> bool" where
  "first_min a m r \<longleftrightarrow> r < m \<and> (\<forall>j < m. a ! r \<le> a ! j) \<and> (\<forall>j < r. a ! r < a ! j)"

text \<open>\<open>value_at\<close>, lines 210-231.\<close>

definition value_at :: "real list \<Rightarrow> real list \<Rightarrow> real \<Rightarrow> real \<Rightarrow> error + real" where
  "value_at freq y f0 df =
     (let m = map (\<lambda>f. f \<ge> f0 - df \<and> f \<le> f0 + df) freq
      in if True \<in> set m
         then (case mask_select y m of Inl e \<Rightarrow> Inl e | Inr ym \<Rightarrow> np_max ym)
         else (case np_argmin (map (\<lambda>f. \<bar>f - f0\<bar>) freq) of
                 Inl e \<Rightarrow> Inl e
               | Inr idx \<Rightarrow> if idx < length y then Inr (y ! idx) else Inl IndexError))"

text \<open>
  The part of the window object \<open>ModeVisualizer16\<close> that the reconstruction reads: the
  dictionary of the filtered curves and the value of the window spin box.
\<close>

record visualizer =
  dfs :: "string \<rightharpoonup> dataframe"
  spin_win :: real

text \<open>The dictionary key \<open>f"P{p}_{ex}_x"\<close>: the decimal digits of the corner number.\<close>

definition digit_char :: "nat \<Rightarrow> char" where
  "digit_char n = ''0123456789'' ! n"

fun str_nat :: "nat \<Rightarrow> string" where
  "str_nat n = (if n < 10 then [digit_char n] else str_nat (n div 10) @ [digit_char (n mod 10)])"

declare str_nat.simps [simp del]

definition str_int :: "int \<Rightarrow> string" where
  "str_int i = (if i < 0 then CHR ''-'' # str_nat (nat (- i)) else str_nat (nat i))"

definition channel_key :: "int \<Rightarrow> string \<Rightarrow> string \<Rightarrow> string" where
  "channel_key p ex ax = ''P'' @ str_int p @ ''_'' @ ex @ ''_'' @ ax"

text \<open>
  \<open>corner_vector\<close>, lines 608-635. The loop over the two excitation directions adds to
  \<open>v\<close>; a missing key raises KeyError, and an error of \<open>value_at\<close> propagates.
\<close>

fun corner_loop :: "visualizer \<Rightarrow> int \<Rightarrow> real \<Rightarrow> string list \<Rightarrow> real \<times> real \<Rightarrow> error + real \<times> real" where
  "corner_loop self p f0 [] v = Inr v"
| "corner_loop self p f0 (ex # exs) v =
     (case dfs self (channel_key p ex ''x'') of
        None \<Rightarrow> Inl KeyError
      | Some dfx \<Rightarrow>
          (case dfs self (channel_key p ex ''y'') of
             None \<Rightarrow> Inl KeyError
           | Some dfy \<Rightarrow>
               (case value_at (map fst dfx) (map snd dfx) f0 (spin_win self) of
                  Inl e \<Rightarrow> Inl e
                | Inr mx \<Rightarrow>
                    (case value_at (map fst dfy) (map snd dfy) f0 (spin_win self) of
                       Inl e \<Rightarrow> Inl e
                     | Inr my \<Rightarrow> corner_loop self p f0 exs (fst v + mx, snd v + my)))))"

definition corner_vector :: "visualizer \<Rightarrow> int \<Rightarrow> real \<Rightarrow> error + real \<times> real" where
  "corner_vector self p f0 =
     (case corner_loop self p f0 [''X'', ''Y''] (0, 0) of
        Inl e \<Rightarrow> Inl e
      | Inr v \<Rightarrow> Inr (0.5 * fst v, 0.5 * snd v))"

text \<open>
  The normalisation of \<open>draw_mode\<close>, lines 662-668, on the array \<open>u\<close> of the corner vectors
  (four rows there; \<open>np.max\<close> raises on none): \<open>np.linalg.norm(u, axis=1)\<close> is the
  Euclidean norm of each row, \<open>denom\<close> their maximum, replaced by 1 when below \<open>1e-12\<close>.
\<close>

definition norm2 :: "real \<times> real \<Rightarrow> real" where
  "norm2 v = sqrt ((fst v)\<^sup>2 + (snd v)\<^sup>2)"

definition normalize_field :: "(real \<times> real) list \<Rightarrow> error + (real \<times> real) list" where
  "normalize_field u =
     (case np_max (map norm2 u) of
        Inl e \<Rightarrow> Inl e
      | Inr m \<Rightarrow>
          let denom = (if m < 1 / 10 ^ 12 then 1 else m)
          in Inr (map (\<lambda>v. (fst v / denom, snd v / denom)) u))"

text \<open>
  The divisor in the words of the specification: the maximum Euclidean norm over the
  vectors of the field, or 1 when that maximum is below the epsilon.
\<close>

definition divisor :: "(real \<times> real) list \<Rightarrow> real" where
  "divisor u = (if Max (norm2 ` set u) < 1 / 10 ^ 12 then 1 else Max (norm2 ` set u))"

fun corner_vectors :: "visualizer \<Rightarrow> real \<Rightarrow> int list \<Rightarrow> error + (real \<times> real) list" where
  "corner_vectors self f0 [] = Inr []"
| "corner_vectors self f0 (i # is) =
     (case corner_vector self i f0 of
        Inl e \<Rightarrow> Inl e
      | Inr v \<Rightarrow> (case corner_vectors self f0 is of Inl e \<Rightarrow> Inl e | Inr vs \<Rightarrow> Inr (v # vs)))"

definition draw_mode_u_norm :: "visualizer \<Rightarrow> real \<Rightarrow> error + (real \<times> real) list" where
  "draw_mode_u_norm self f0 =
     (case corner_vectors self f0 [1, 2, 3, 4] of
        Inl e \<Rightarrow> Inl e
      | Inr u \<Rightarrow> normalize_field u)"

text \<open>
  A state of the window with the four curves of corner 1 loaded, one sample each; the
  claims on the reconstruction are instantiated on it.
\<close>

definition corner1_rig :: visualizer where
  "corner1_rig =
     \<lparr>dfs = [''P1_X_x'' \<mapsto> [(1, 2)], ''P1_X_y'' \<mapsto> [(1, 4)],
             ''P1_Y_x'' \<mapsto> [(1, 6)], ''P1_Y_y'' \<mapsto> [(1, 8)]],
      spin_win = 1\<rparr>"

section \<open>Peak detection: proofs\<close>

lemma fold_positive_step:
  assumes "\<forall>i \<in> set is. 0 < i \<and> i + 1 < length d"
  shows "fold (positive_step (map fst d) (map snd d) level) is acc
           = acc @ map (\<lambda>i. d ! i) (filter (is_positive_peak d level) is)"
  using assms
proof (induction "is" arbitrary: acc)
  case Nil
  then show ?case by simp
next
  case (Cons i "is")
  from Cons.prems have "0 < i" "i + 1 < length d" by auto
  then have "positive_step (map fst d) (map snd d) level i acc
               = (if is_positive_peak d level i then acc @ [d ! i] else acc)"
    by (simp add: positive_step_def is_positive_peak_def)
  with Cons show ?case by simp
qed

lemma fold_negative_step:
  assumes "\<forall>i \<in> set is. 0 < i \<and> i + 1 < length d"
  shows "fold (negative_step (map fst d) (map snd d) level) is acc
           = acc @ map (\<lambda>i. d ! i) (filter (is_negative_peak d level) is)"
  using assms
proof (induction "is" arbitrary: acc)
  case Nil
  then show ?case by simp
next
  case (Cons i "is")
  from Cons.prems have "0 < i" "i + 1 < length d" by auto
  then have "negative_step (map fst d) (map snd d) level i acc
               = (if is_negative_peak d level i then acc @ [d ! i] else acc)"
    by (simp add: negative_step_def is_negative_peak_def)
  with Cons show ?case by simp
qed

lemma interior_indices: "\<forall>i \<in> set [1..<length d - 1]. 0 < i \<and> i + 1 < length (d :: 'a list)"
  by auto

lemma find_positive_peaks_eq:
  "find_positive_peaks (Some d) level
     = map (\<lambda>i. d ! i) (filter (is_positive_peak d level) [1..<length d - 1])"
proof (cases "length d < 3")
  case True
  then have "[1..<length d - 1] = [] \<or> length d = 2" by auto
  then show ?thesis using True by (auto simp: find_positive_peaks_def)
next
  case False
  then have ne: "d \<noteq> []" by auto
  have "fold (positive_step (map fst d) (map snd d) level) [1..<length d - 1] []
          = [] @ map (\<lambda>i. d ! i) (filter (is_positive_peak d level) [1..<length d - 1])"
    by (rule fold_positive_step [OF interior_indices])
  with False ne show ?thesis
    by (simp add: find_positive_peaks_def Let_def)
qed

lemma find_negative_peaks_eq:
  "find_negative_peaks (Some d) level
     = map (\<lambda>i. d ! i) (filter (is_negative_peak d level) [1..<length d - 1])"
proof (cases "length d < 3")
  case True
  then have "[1..<length d - 1] = [] \<or> length d = 2" by auto
  then show ?thesis using True by (auto simp: find_negative_peaks_def)
next
  case False
  then have ne: "d \<noteq> []" by auto
  have "fold (negative_step (map fst d) (map snd d) level) [1..<length d - 1] []
          = [] @ map (\<lambda>i. d ! i) (filter (is_negative_peak d level) [1..<length d - 1])"
    by (rule fold_negative_step [OF interior_indices])
  with False ne show ?thesis
    by (simp add: find_negative_peaks_def Let_def)
qed

section \<open>Peak detection: the claims\<close>

text \<open>
  C2. For a curve sorted ascending by frequency with at least three samples, the positive
  detector returns, in index order, exactly the interior samples \<open>i\<close> (from 1 to \<open>n - 2\<close>)
  whose value is strictly above both neighbours and at least \<open>level\<close>, and the negative
  detector exactly those strictly below both neighbours and at most \<open>- level\<close>. Two equal
  neighbouring values (a flat top or bottom) are never peaks.
\<close>

theorem detect_peaks_interior_extrema:
  assumes "sorted (map fst d)" and "3 \<le> length d"
  shows "find_positive_peaks (Some d) level
           = map (\<lambda>i. d ! i) (filter (is_positive_peak d level) [1..<length d - 1])
       \<and> find_negative_peaks (Some d) level
           = map (\<lambda>i. d ! i) (filter (is_negative_peak d level) [1..<length d - 1])
       \<and> (\<forall>i. snd (d ! i) = snd (d ! (i + 1))
              \<longrightarrow> \<not> is_positive_peak d level i \<and> \<not> is_positive_peak d level (i + 1)
                \<and> \<not> is_negative_peak d level i \<and> \<not> is_negative_peak d level (i + 1))"
  by (simp add: find_positive_peaks_eq find_negative_peaks_eq is_positive_peak_def
      is_negative_peak_def)

theorem detect_peaks_interior_extrema_witness:
  "sorted (map fst [(1, 0), (2, 5), (3, 1), (4, - 4), (5, 0 :: real)] :: real list)
   \<and> (3 :: nat) \<le> length [(1 :: real, 0 :: real), (2, 5), (3, 1), (4, - 4), (5, 0)]
   \<and> find_positive_peaks (Some [(1, 0), (2, 5), (3, 1), (4, - 4), (5, 0)]) 2 = [(2, 5)]
   \<and> find_negative_peaks (Some [(1, 0), (2, 5), (3, 1), (4, - 4), (5, 0)]) 2 = [(4, - 4)]
   \<and> find_positive_peaks (Some [(1, 0), (2, 5), (3, 5), (4, 0)]) 2 = []"
  using detect_peaks_interior_extrema [of "[(1, 0), (2, 5), (3, 1), (4, - 4), (5, 0)]" 2]
    detect_peaks_interior_extrema [of "[(1, 0), (2, 5), (3, 5), (4, 0)]" 2]
  by (simp add: is_positive_peak_def is_negative_peak_def upt_rec)

text \<open>
  C5. On a curve with fewer than three samples, the empty curve included, the positive and
  the negative detector of both scripts return the empty list. The detectors are total
  functions of the model: the early return comes before any read of the curve.
\<close>

theorem short_curve_no_peaks:
  "length d < 3 \<Longrightarrow>
     find_positive_peaks (Some d) level = [] \<and> find_negative_peaks (Some d) level = []
   \<and> analyzer_find_positive_peaks srt (Some d) level = []
   \<and> analyzer_find_negative_peaks srt (Some d) level = []"
  by (simp add: find_positive_peaks_def find_negative_peaks_def
      analyzer_find_positive_peaks_def analyzer_find_negative_peaks_def)

theorem short_curve_no_peaks_witness:
  "length [(1 :: real, 2 :: real), (2, 3)] < (3 :: nat)
   \<and> find_positive_peaks (Some [(1, 2), (2, 3)]) 0 = []
   \<and> find_negative_peaks (Some [(1, 2), (2, 3)]) 0 = []
   \<and> analyzer_find_positive_peaks (sort_key fst) (Some [(1, 2), (2, 3)]) 0 = []
   \<and> analyzer_find_negative_peaks (sort_key fst) (Some [(1, 2), (2, 3)]) 0 = []
   \<and> find_positive_peaks (Some []) 0 = []"
  using short_curve_no_peaks [of "[(1, 2), (2, 3)]" 0 "sort_key fst"]
    short_curve_no_peaks [of "[]" 0 "sort_key fst"]
  by simp

lemma filter_same_key:
  "distinct (map f xs) \<Longrightarrow> k \<in> set xs \<Longrightarrow> filter (\<lambda>x. f k = f x) xs = [k]"
proof (induction xs)
  case Nil
  then show ?case by simp
next
  case (Cons a xs)
  show ?case
  proof (cases "k = a")
    case True
    from Cons.prems have "\<forall>x \<in> set xs. f a \<noteq> f x" by auto
    then have "filter (\<lambda>x. f a = f x) xs = []" by (simp add: filter_empty_conv)
    with True show ?thesis by simp
  next
    case False
    with Cons.prems have "k \<in> set xs" by simp
    moreover from this Cons.prems have "f k \<noteq> f a" by (force simp: image_iff)
    ultimately have "k \<in> set xs" "f k \<noteq> f a" by simp_all
    with Cons show ?thesis by simp
  qed
qed

lemma sort_fixes_strictly_sorted:
  assumes "mset d' = mset d" and "sorted (map f d')"
    and "sorted (map f d)" and "distinct (map f d)"
  shows "d' = d"
proof -
  have "mset (map f d') = mset (map f d)" using assms(1) by (metis mset_map)
  then have dd: "distinct (map f d')" using assms(4) by (metis mset_eq_imp_distinct_iff)
  have s: "set d' = set d" using assms(1) by (metis mset_eq_setD)
  have "sort_key f d = d'"
  proof (rule properties_for_sort_key [OF assms(1) _ assms(2)])
    fix k assume k: "k \<in> set d'"
    then have "k \<in> set d" using s by simp
    then have "filter (\<lambda>x. f k = f x) d = [k]" using assms(4) by (rule filter_same_key [rotated])
    moreover have "filter (\<lambda>x. f k = f x) d' = [k]" using dd k by (rule filter_same_key)
    ultimately show "filter (\<lambda>x. f k = f x) d' = filter (\<lambda>x. f k = f x) d" by simp
  qed
  moreover have "sort_key f d = d" using assms(3) by (rule sort_key_id_if_sorted)
  ultimately show "d' = d" by simp
qed

lemma sorts_by_freq_sort_key: "sorts_by_freq (sort_key fst)"
  by (simp add: sorts_by_freq_def)

lemma no_pos_neg_tie_strict:
  assumes "distinct (map fst d)"
  shows "\<not> pos_neg_same_freq (Some d) level"
proof
  assume "pos_neg_same_freq (Some d) level"
  then obtain i j where i: "i \<in> set [1..<length d - 1]" "is_positive_peak d level i"
    and j: "j \<in> set [1..<length d - 1]" "is_negative_peak d level j"
    and eq: "fst (d ! i) = fst (d ! j)"
    by (auto simp: pos_neg_same_freq_def find_positive_peaks_eq find_negative_peaks_eq)
  from i(1) j(1) have lt: "i < length d" "j < length d" by auto
  have "i = j"
    using assms lt eq nth_eq_iff_index_eq [of "map fst d" i j] by simp
  with i(2) j(2) show False by (simp add: is_positive_peak_def is_negative_peak_def)
qed

text \<open>
  C6, as amended. The combined list of \<open>peaks_from_df\<close> is sorted ascending by frequency
  and holds exactly the positive and the negative peaks, each as often as it was found.
  When the frequencies of the curve are strictly ascending (sorted, and no frequency
  twice), no positive peak and negative peak share a frequency.
\<close>

theorem combined_peaks_sorted_union:
  "sorted (map fst (peaks_from_df (Some d) level))
   \<and> mset (peaks_from_df (Some d) level)
       = mset (find_positive_peaks (Some d) level) + mset (find_negative_peaks (Some d) level)
   \<and> (sorted (map fst d) \<and> distinct (map fst d) \<longrightarrow> \<not> pos_neg_same_freq (Some d) level)"
  by (simp add: peaks_from_df_def no_pos_neg_tie_strict)

theorem combined_peaks_sorted_union_witness:
  "sorted (map fst [(1 :: real, 0 :: real), (2, 5), (3, - 5), (4, 0)])
   \<and> distinct (map fst [(1 :: real, 0 :: real), (2, 5), (3, - 5), (4, 0)])
   \<and> peaks_from_df (Some [(1, 0), (2, 5), (3, - 5), (4, 0)]) 0 = [(2, 5), (3, - 5)]
   \<and> \<not> pos_neg_same_freq (Some [(1, 0), (2, 5), (3, - 5), (4, 0)]) 0"
  using combined_peaks_sorted_union [of "[(1, 0), (2, 5), (3, - 5), (4, 0)]" 0]
  by (simp add: peaks_from_df_def find_positive_peaks_def find_negative_peaks_def
      positive_step_def negative_step_def upt_rec)

text \<open>
  C6 as stated fails on a sorted curve in which two samples share a frequency: the samples
  \<open>(2, 5)\<close> and \<open>(2, -5)\<close> below are a positive and a negative peak, and both
  are in the combined list.
\<close>

theorem combined_peaks_tied_counterexample:
  "sorted (map fst [(1 :: real, 0 :: real), (2, 5), (2, - 5), (3, 0)])
   \<and> find_positive_peaks (Some [(1, 0), (2, 5), (2, - 5), (3, 0)]) 0 = [(2, 5)]
   \<and> find_negative_peaks (Some [(1, 0), (2, 5), (2, - 5), (3, 0)]) 0 = [(2, - 5)]
   \<and> peaks_from_df (Some [(1, 0), (2, 5), (2, - 5), (3, 0)]) 0 = [(2, 5), (2, - 5)]
   \<and> pos_neg_same_freq (Some [(1, 0), (2, 5), (2, - 5), (3, 0)]) 0"
  by (simp add: peaks_from_df_def pos_neg_same_freq_def find_positive_peaks_def
      find_negative_peaks_def positive_step_def negative_step_def upt_rec)

text \<open>
  For a curve whose frequencies are strictly ascending, every sort by frequency leaves the
  curve as it is, so there the agreement of the two scripts does not depend on what the
  sort does with rows of equal frequency.
\<close>

lemma analyzer_peaks_agree_any_sort:
  assumes "sorts_by_freq srt" and "sorted (map fst d)" and "distinct (map fst d)"
  shows "analyzer_find_positive_peaks srt (Some d) level = find_positive_peaks (Some d) level
       \<and> analyzer_find_negative_peaks srt (Some d) level = find_negative_peaks (Some d) level"
proof -
  from assms(1) have "mset (srt d) = mset d" "sorted (map fst (srt d))"
    by (simp_all add: sorts_by_freq_def)
  then have "srt d = d" using assms(2,3) by (rule sort_fixes_strictly_sorted)
  then show ?thesis
    by (simp add: analyzer_find_positive_peaks_def analyzer_find_negative_peaks_def
        find_positive_peaks_def find_negative_peaks_def)
qed




section \<open>Mode clustering: proofs and claims\<close>

lemma fold_cluster_step:
  "fold (cluster_step tol) fs (prev @ [cur]) = prev @ greedy tol cur fs"
proof (induction fs arbitrary: prev cur)
  case Nil
  then show ?case by simp
next
  case (Cons f fs)
  show ?case
  proof (cases "\<bar>f - mean cur\<bar> \<le> tol")
    case True
    then have "cluster_step tol f (prev @ [cur]) = prev @ [cur @ [f]]"
      by (simp add: cluster_step_def)
    with True Cons.IH [of prev "cur @ [f]"] show ?thesis by simp
  next
    case False
    then have "cluster_step tol f (prev @ [cur]) = (prev @ [cur]) @ [[f]]"
      by (simp add: cluster_step_def)
    with False Cons.IH [of "prev @ [cur]" "[f]"] show ?thesis by simp
  qed
qed

lemma cluster_pass_greedy: "flat \<noteq> [] \<Longrightarrow> cluster_pass tol flat = greedy_clusters tol flat"
proof (cases flat)
  case Nil
  assume "flat \<noteq> []"
  with Nil show ?thesis by simp
next
  case (Cons f fs)
  have "fold (cluster_step tol) fs ([] @ [[f]]) = [] @ greedy tol [f] fs"
    by (rule fold_cluster_step)
  with Cons show ?thesis by (simp add: cluster_pass_def greedy_clusters_def)
qed

lemma concat_collect_arrays: "concat (collect_arrays apf) = all_frequencies apf"
  unfolding collect_arrays_def all_frequencies_def
  by (induction apf) (auto split: option.splits)

lemma collect_arrays_nonempty: "[] \<notin> set (collect_arrays apf)"
  unfolding collect_arrays_def
  by (induction apf) (auto split: option.splits)

lemma collect_arrays_empty_iff: "collect_arrays apf = [] \<longleftrightarrow> all_frequencies apf = []"
proof
  assume "collect_arrays apf = []"
  then show "all_frequencies apf = []" using concat_collect_arrays [of apf] by simp
next
  assume "all_frequencies apf = []"
  then have "concat (collect_arrays apf) = []" by (simp add: concat_collect_arrays)
  then have "\<forall>a \<in> set (collect_arrays apf). a = []" by simp
  with collect_arrays_nonempty [of apf] show "collect_arrays apf = []"
    by (cases "collect_arrays apf") auto
qed

lemma clusters_of_greedy:
  "clusters_of apf tol = greedy_clusters tol (sort (all_frequencies apf))"
proof (cases "all_frequencies apf = []")
  case True
  then show ?thesis
    by (simp add: clusters_of_def collect_arrays_empty_iff greedy_clusters_def)
next
  case False
  then have "sort (all_frequencies apf) \<noteq> []" by (metis length_sort length_0_conv)
  with False show ?thesis
    by (simp add: clusters_of_def Let_def collect_arrays_empty_iff concat_collect_arrays
        cluster_pass_greedy)
qed

lemma cluster_modes_clusters_of:
  "cluster_modes apf tol k = map mean (filter (\<lambda>c. k \<le> int (length c)) (clusters_of apf tol))"
  by (simp add: cluster_modes_def clusters_of_def Let_def cluster_pass_def)

lemma all_frequencies_empty:
  "(\<forall>arr \<in> set apf. arr = None \<or> arr = Some []) \<Longrightarrow> all_frequencies apf = []"
  unfolding all_frequencies_def by (induction apf) auto

lemma drift_example:
  "clusters_of [Some [3 / 2, 0], None, Some [1]] 1 = [[0, 1, 3 / 2]]"
  by (simp add: clusters_of_greedy all_frequencies_def greedy_clusters_def mean_def)

text \<open>
  C1. The clusters built by \<open>cluster_modes\<close> are those of the specification's rule: all
  frequencies of all input lists in one list, sorted ascending, then one greedy pass from
  left to right in which a value joins the current cluster exactly when it is within the
  tolerance of the cluster's mean. The modes are the means of the clusters kept by the
  support filter. There are values \<open>a < b < c\<close> with \<open>b\<close> within the tolerance of \<open>a\<close>,
  \<open>c\<close> not within the tolerance of \<open>a\<close>, and \<open>c\<close> within the tolerance of the mean of
  \<open>a\<close> and \<open>b\<close>, for which all three end in one cluster.
\<close>

theorem cluster_is_greedy_pass:
  "clusters_of all_peak_freqs tol = greedy_clusters tol (sort (all_frequencies all_peak_freqs))
   \<and> cluster_modes all_peak_freqs tol min_count
       = map mean (filter (\<lambda>c. min_count \<le> int (length c))
                     (greedy_clusters tol (sort (all_frequencies all_peak_freqs))))
   \<and> (\<exists>a b c t. a < b \<and> b < c \<and> \<bar>b - a\<bar> \<le> t \<and> \<bar>c - a\<bar> > t \<and> \<bar>c - mean [a, b]\<bar> \<le> t
          \<and> clusters_of [Some [c, a], None, Some [b]] t = [[a, b, c]])"
proof -
  have "(0::real) < 1 \<and> (1::real) < 3 / 2 \<and> \<bar>1 - 0 :: real\<bar> \<le> 1 \<and> \<bar>3 / 2 - 0 :: real\<bar> > 1
        \<and> \<bar>3 / 2 - mean [0, 1]\<bar> \<le> 1
        \<and> clusters_of [Some [3 / 2, 0], None, Some [1]] 1 = [[0, 1, 3 / 2]]"
    by (simp add: drift_example) (simp add: mean_def)
  then have "\<exists>a b c t. a < b \<and> b < c \<and> \<bar>b - a\<bar> \<le> t \<and> \<bar>c - a\<bar> > t \<and> \<bar>c - mean [a, b]\<bar> \<le> t
          \<and> clusters_of [Some [c, a], None, Some [b]] t = [[a, b, c]]"
    by blast
  then show ?thesis
    by (simp add: cluster_modes_clusters_of clusters_of_greedy)
qed

text \<open>
  C4. The modes are the means of exactly the clusters with at least \<open>min_count\<close>
  members, in cluster order. When every input list is missing or empty, and when no
  cluster reaches \<open>min_count\<close>, the result is the empty list; \<open>cluster_modes\<close> has no
  raising path.
\<close>

theorem cluster_modes_support_filter:
  "cluster_modes all_peak_freqs tol min_count
     = map mean (filter (\<lambda>c. min_count \<le> int (length c)) (clusters_of all_peak_freqs tol))
   \<and> ((\<forall>arr \<in> set all_peak_freqs. arr = None \<or> arr = Some [])
        \<longrightarrow> cluster_modes all_peak_freqs tol min_count = [])
   \<and> ((\<forall>c \<in> set (clusters_of all_peak_freqs tol). int (length c) < min_count)
        \<longrightarrow> cluster_modes all_peak_freqs tol min_count = [])"
proof -
  have "cluster_modes all_peak_freqs tol min_count = []"
    if "\<forall>arr \<in> set all_peak_freqs. arr = None \<or> arr = Some []"
  proof -
    from that have "all_frequencies all_peak_freqs = []" by (rule all_frequencies_empty)
    then show ?thesis
      by (simp add: cluster_modes_clusters_of clusters_of_greedy greedy_clusters_def)
  qed
  moreover have "cluster_modes all_peak_freqs tol min_count = []"
    if "\<forall>c \<in> set (clusters_of all_peak_freqs tol). int (length c) < min_count"
    using that by (simp add: cluster_modes_clusters_of filter_empty_conv not_le)
  ultimately show ?thesis
    by (simp add: cluster_modes_clusters_of)
qed

theorem cluster_modes_support_filter_witness:
  "list_all (\<lambda>arr. arr = None \<or> arr = Some []) [None, Some [], Some ([] :: real list)]
   \<and> cluster_modes [None, Some [], Some []] (1 / 2) 1 = []
   \<and> clusters_of [Some [10, 103 / 10], Some [101 / 10]] (1 / 2) = [[10, 101 / 10, 103 / 10]]
   \<and> list_all (\<lambda>c. int (length c) < 4)
         (clusters_of [Some [10, 103 / 10], Some [101 / 10]] (1 / 2))
   \<and> cluster_modes [Some [10, 103 / 10], Some [101 / 10]] (1 / 2) 4 = []
   \<and> cluster_modes [Some [10, 103 / 10], Some [101 / 10]] (1 / 2) 2 = [152 / 15]"
proof -
  let ?e = "[None, Some [], Some ([] :: real list)]"
  let ?i = "[Some [10, 103 / 10], Some [101 / 10 :: real]]"
  have h1: "\<forall>arr \<in> set ?e. arr = None \<or> arr = Some []" by simp
  have c: "clusters_of ?i (1 / 2) = [[10, 101 / 10, 103 / 10]]"
    by (simp add: clusters_of_greedy all_frequencies_def greedy_clusters_def mean_def)
  have h2: "\<forall>c \<in> set (clusters_of ?i (1 / 2)). int (length c) < 4" by (simp add: c)
  from cluster_modes_support_filter [of ?e "1 / 2" 1] h1
  have r1: "cluster_modes ?e (1 / 2) 1 = []" by blast
  from cluster_modes_support_filter [of ?i "1 / 2" 4] h2
  have r2: "cluster_modes ?i (1 / 2) 4 = []" by blast
  from cluster_modes_support_filter [of ?i "1 / 2" 2]
  have r3: "cluster_modes ?i (1 / 2) 2 = [152 / 15]" by (simp add: c mean_def)
  from h1 c h2 r1 r2 r3 show ?thesis by (simp add: list_all_iff)
qed

lemma sum_list_lower: "\<forall>x \<in> set c. a \<le> x \<Longrightarrow> a * real (length c) \<le> sum_list c"
  by (induction c) (auto simp: algebra_simps)

lemma sum_list_upper: "\<forall>x \<in> set c. x \<le> b \<Longrightarrow> sum_list c \<le> b * real (length c)"
  by (induction c) (auto simp: algebra_simps)

lemma mean_lower: "c \<noteq> [] \<Longrightarrow> \<forall>x \<in> set c. a \<le> x \<Longrightarrow> a \<le> mean c"
  using sum_list_lower [of c a] by (simp add: mean_def pos_le_divide_eq)

lemma mean_upper: "c \<noteq> [] \<Longrightarrow> \<forall>x \<in> set c. x \<le> b \<Longrightarrow> mean c \<le> b"
  using sum_list_upper [of c b] by (simp add: mean_def pos_divide_le_eq)

lemma greedy_members:
  "cur \<noteq> [] \<Longrightarrow> c \<in> set (greedy tol cur rest) \<Longrightarrow> c \<noteq> [] \<and> set c \<subseteq> set cur \<union> set rest"
proof (induction rest arbitrary: cur)
  case Nil
  then show ?case by simp
next
  case (Cons f fs)
  show ?case
  proof (cases "\<bar>f - mean cur\<bar> \<le> tol")
    case True
    with Cons.prems have "c \<in> set (greedy tol (cur @ [f]) fs)" by simp
    with Cons.IH [of "cur @ [f]"] show ?thesis by auto
  next
    case False
    with Cons.prems have "c = cur \<or> c \<in> set (greedy tol [f] fs)" by simp
    with Cons.IH [of "[f]"] Cons.prems(1) show ?thesis by auto
  qed
qed

lemma greedy_means_increasing:
  "0 \<le> tol \<Longrightarrow> cur \<noteq> [] \<Longrightarrow> sorted (cur @ rest)
     \<Longrightarrow> sorted_wrt (\<lambda>c c'. mean c < mean c') (greedy tol cur rest)"
proof (induction rest arbitrary: cur)
  case Nil
  then show ?case by simp
next
  case (Cons f fs)
  show ?case
  proof (cases "\<bar>f - mean cur\<bar> \<le> tol")
    case True
    from Cons.prems have "sorted ((cur @ [f]) @ fs)" by simp
    with Cons.IH [of "cur @ [f]"] Cons.prems(1) True show ?thesis by simp
  next
    case False
    from Cons.prems(3) have below: "\<forall>x \<in> set cur. x \<le> f" and tl: "sorted ([f] @ fs)"
      by (auto simp: sorted_append)
    from tl have above: "\<forall>x \<in> set [f] \<union> set fs. f \<le> x" by auto
    have "mean cur \<le> f" using Cons.prems(2) below by (rule mean_upper)
    with False Cons.prems(1) have lt: "mean cur < f" by linarith
    have "mean cur < mean c" if "c \<in> set (greedy tol [f] fs)" for c
    proof -
      from that greedy_members [of "[f]" c tol fs] have "c \<noteq> []" "set c \<subseteq> set [f] \<union> set fs"
        by simp_all
      with above have "\<forall>x \<in> set c. f \<le> x" by blast
      with \<open>c \<noteq> []\<close> have "f \<le> mean c" by (rule mean_lower)
      with lt show ?thesis by simp
    qed
    moreover have "sorted_wrt (\<lambda>c c'. mean c < mean c') (greedy tol [f] fs)"
      using Cons.IH [of "[f]"] Cons.prems(1) tl by simp
    ultimately show ?thesis using False by simp
  qed
qed

lemma greedy_clusters_means_increasing:
  "0 \<le> tol \<Longrightarrow> sorted flat \<Longrightarrow> sorted_wrt (\<lambda>c c'. mean c < mean c') (greedy_clusters tol flat)"
  using greedy_means_increasing [of tol "[hd flat]" "tl flat"]
  by (cases flat) (simp_all add: greedy_clusters_def)

text \<open>
  With exact means, for every input and every tolerance above zero the list of modes is
  strictly ascending: on the sorted list a value that opens a new cluster lies above the
  mean of the cluster before it, and the mean of the new cluster is at least that value.
\<close>

theorem cluster_modes_strictly_ascending:
  "0 < tol \<Longrightarrow> sorted_wrt (<) (cluster_modes all_peak_freqs tol min_count)
               \<and> distinct (cluster_modes all_peak_freqs tol min_count)"
proof -
  assume "0 < tol"
  then have "sorted_wrt (\<lambda>c c'. mean c < mean c') (clusters_of all_peak_freqs tol)"
    by (simp add: clusters_of_greedy greedy_clusters_means_increasing)
  then have "sorted_wrt (\<lambda>c c'. mean c < mean c')
               (filter (\<lambda>c. min_count \<le> int (length c)) (clusters_of all_peak_freqs tol))"
    by (rule sorted_wrt_filter)
  then have "sorted_wrt (<) (cluster_modes all_peak_freqs tol min_count)"
    by (simp add: cluster_modes_clusters_of sorted_wrt_map)
  then show ?thesis by (simp add: strict_sorted_iff)
qed

theorem cluster_modes_strictly_ascending_witness:
  "(0 :: real) < 1 / 2
   \<and> cluster_modes [Some [10, 103 / 10, 20], None, Some [101 / 5, 101 / 10]] (1 / 2) 2
       = [152 / 15, 201 / 10]
   \<and> sorted_wrt (<) (cluster_modes [Some [10, 103 / 10, 20], None, Some [101 / 5, 101 / 10]] (1 / 2) 2)"
proof -
  have "cluster_modes [Some [10, 103 / 10, 20], None, Some [101 / 5, 101 / 10]] (1 / 2) 2
       = [152 / 15, 201 / 10]"
    by (simp add: cluster_modes_clusters_of clusters_of_greedy all_frequencies_def
        greedy_clusters_def mean_def)
  then show ?thesis
    using cluster_modes_strictly_ascending
      [of "1 / 2" "[Some [10, 103 / 10, 20], None, Some [101 / 5, 101 / 10]]" 2]
    by simp
qed

text \<open>The rounding on numerals, and two values of it: the double nearest to 1/10, and a tie.\<close>

lemma fl_scaled_numeral:
  "fl_scaled (numeral k) e x =
     (if x < 2 ^ 52 \<and> - 1074 < e then fl_scaled (pred_numeral k) (e - 1) (2 * x)
      else if 2 ^ 53 \<le> x then fl_scaled (pred_numeral k) (e + 1) (x / 2)
      else of_int (rne x) * 2 powi e)"
  by (simp add: numeral_eq_Suc)

lemma fl_one_tenth: "fl (1 / 10) = 3602879701896397 / 2 ^ 55"
  by (simp add: fl_def fl_scaled_numeral rne_def power_int_minus)

lemma fl_tie_to_even: "fl (12562975735787673 / 2 ^ 44) = 6281487867893836 / 2 ^ 43"
  by (simp add: fl_def fl_scaled_numeral rne_def power_int_minus)

lemma mean_f64_three_equal:
  "mean_f64 [8375317157191782 / 2 ^ 45, 8375317157191782 / 2 ^ 45, 8375317157191782 / 2 ^ 45]
     = 8375317157191781 / 2 ^ 45"
  by (simp add: mean_f64_def fl_def fl_scaled_numeral rne_def power_int_minus)










lemma cluster_modes_exact_same_input:
  "cluster_modes
       [Some [8375317157191781 / 2 ^ 45, 8375317157191782 / 2 ^ 45,
              8375317157191782 / 2 ^ 45, 8375317157191782 / 2 ^ 45]] (1 / 2 ^ 50) 1
     = [8375317157191781 / 2 ^ 45, 8375317157191782 / 2 ^ 45]"
  by (simp add: cluster_modes_def collect_arrays_def cluster_step_def mean_def)

section \<open>Shape reconstruction: proofs and claims\<close>

lemma np_max_Max: "a \<noteq> [] \<Longrightarrow> np_max a = Inr (Max (set a))"
proof (cases a)
  case Nil
  assume "a \<noteq> []"
  with Nil show ?thesis by simp
next
  case (Cons v vs)
  have "fold max vs v = Max (set (v # vs))" by (rule Max.set_eq_fold [symmetric])
  with Cons show ?thesis by (simp add: np_max_def)
qed

lemma mask_select_curve:
  "mask_select (map snd curve) (map (\<lambda>f. P f) (map fst curve))
     = Inr (map snd (filter (\<lambda>s. P (fst s)) curve))"
proof -
  have "map fst (filter snd (zip (map snd curve) (map (\<lambda>f. P f) (map fst curve))))
          = map snd (filter (\<lambda>s. P (fst s)) curve)"
    by (induction curve) simp_all
  then show ?thesis by (simp add: mask_select_def)
qed

lemma argmin_scan:
  "0 < m \<Longrightarrow> first_min a m (fold (\<lambda>i best. if a ! i < a ! best then i else best) [1..<m] 0)"
proof (induction m)
  case 0
  then show ?case by simp
next
  case (Suc m)
  show ?case
  proof (cases "m = 0")
    case True
    then show ?thesis by (simp add: first_min_def)
  next
    case False
    let ?r = "fold (\<lambda>i best. if a ! i < a ! best then i else best) [1..<m] 0"
    from False Suc.IH have r: "first_min a m ?r" by simp
    from False have "[1..<Suc m] = [1..<m] @ [m]" by simp
    then have step: "fold (\<lambda>i best. if a ! i < a ! best then i else best) [1..<Suc m] 0
                 = (if a ! m < a ! ?r then m else ?r)"
      by simp
    show ?thesis
    proof (cases "a ! m < a ! ?r")
      case True
      from r have rmin: "a ! ?r \<le> a ! j" if "j < m" for j
        using that by (simp add: first_min_def)
      have lt: "a ! m < a ! j" if "j < m" for j
        using rmin [OF that] True by linarith
      have "a ! m \<le> a ! j" if "j < Suc m" for j
      proof (cases "j = m")
        case True
        then show ?thesis by simp
      next
        case False
        with that have "j < m" by simp
        then show ?thesis using lt by (simp add: less_imp_le)
      qed
      with lt have "first_min a (Suc m) m"
        by (simp add: first_min_def)
      with True step show ?thesis by simp
    next
      case False
      have "first_min a (Suc m) ?r"
        using r False by (auto simp: first_min_def less_Suc_eq)
      with False step show ?thesis by simp
    qed
  qed
qed

lemma np_argmin_first_min:
  "a \<noteq> [] \<Longrightarrow> \<exists>r. np_argmin a = Inr r \<and> first_min a (length a) r"
  using argmin_scan [of "length a" a] by (simp add: np_argmin_def)

lemma value_at_in_window:
  assumes "\<exists>s \<in> set curve. f0 - w \<le> fst s \<and> fst s \<le> f0 + w"
  shows "value_at (map fst curve) (map snd curve) f0 w
           = Inr (Max (set (map snd (filter (\<lambda>s. f0 - w \<le> fst s \<and> fst s \<le> f0 + w) curve))))"
proof -
  let ?P = "\<lambda>f. f0 - w \<le> f \<and> f \<le> f0 + w"
  from assms have any: "True \<in> set (map ?P (map fst curve))" by (auto simp: image_iff)
  from assms have ne: "map snd (filter (\<lambda>s. ?P (fst s)) curve) \<noteq> []"
    by (auto simp: filter_empty_conv)
  have "value_at (map fst curve) (map snd curve) f0 w
          = np_max (map snd (filter (\<lambda>s. ?P (fst s)) curve))"
    using any mask_select_curve [of curve ?P] by (simp add: value_at_def Let_def)
  also have "\<dots> = Inr (Max (set (map snd (filter (\<lambda>s. ?P (fst s)) curve))))"
    using ne by (rule np_max_Max)
  finally show ?thesis .
qed

lemma value_at_fallback:
  assumes "curve \<noteq> []" and "\<not> (\<exists>s \<in> set curve. f0 - w \<le> fst s \<and> fst s \<le> f0 + w)"
  shows "\<exists>i. first_min (map (\<lambda>s. \<bar>fst s - f0\<bar>) curve) (length curve) i
             \<and> value_at (map fst curve) (map snd curve) f0 w = Inr (snd (curve ! i))"
proof -
  let ?P = "\<lambda>f. f0 - w \<le> f \<and> f \<le> f0 + w"
  let ?a = "map (\<lambda>f. \<bar>f - f0\<bar>) (map fst curve)"
  from assms(2) have none: "True \<notin> set (map ?P (map fst curve))" by (auto simp: image_iff)
  from assms(1) have "?a \<noteq> []" by simp
  then obtain r where r: "np_argmin ?a = Inr r" "first_min ?a (length ?a) r"
    using np_argmin_first_min by blast
  then have lt: "r < length curve" by (simp add: first_min_def)
  have "value_at (map fst curve) (map snd curve) f0 w = Inr (snd (curve ! r))"
    using assms(2) r(1) lt by (auto simp: value_at_def Let_def)
  moreover have "first_min (map (\<lambda>s. \<bar>fst s - f0\<bar>) curve) (length curve) r"
    using r(2) by (simp add: comp_def)
  ultimately show ?thesis by blast
qed

lemma value_at_total:
  "curve \<noteq> [] \<Longrightarrow> \<exists>v. value_at (map fst curve) (map snd curve) f0 w = Inr v"
  using value_at_in_window [of curve f0 w] value_at_fallback [of curve f0 w] by blast

text \<open>
  C3. For a curve given as its list of samples: when some sample has its frequency in
  \<open>[f0 - w, f0 + w]\<close>, \<open>value_at\<close> returns the maximum value of the samples in that
  window. When the curve has samples and none is in the window, it returns the value of the
  sample whose frequency is closest to \<open>f0\<close> by absolute difference, the first such sample
  in curve order. A window holding three samples with the values 1, 5, 2 yields 5.
  (On a curve without samples \<open>np.argmin\<close> raises and there is no closest sample.)
\<close>

theorem value_at_window_max_or_closest:
  "((\<exists>s \<in> set curve. f0 - w \<le> fst s \<and> fst s \<le> f0 + w)
      \<longrightarrow> value_at (map fst curve) (map snd curve) f0 w
            = Inr (Max {snd s | s. s \<in> set curve \<and> f0 - w \<le> fst s \<and> fst s \<le> f0 + w}))
   \<and> (curve \<noteq> [] \<and> \<not> (\<exists>s \<in> set curve. f0 - w \<le> fst s \<and> fst s \<le> f0 + w)
      \<longrightarrow> (\<exists>i < length curve.
             value_at (map fst curve) (map snd curve) f0 w = Inr (snd (curve ! i))
             \<and> (\<forall>j < length curve. \<bar>fst (curve ! i) - f0\<bar> \<le> \<bar>fst (curve ! j) - f0\<bar>)
             \<and> (\<forall>j < i. \<bar>fst (curve ! i) - f0\<bar> < \<bar>fst (curve ! j) - f0\<bar>)))
   \<and> (map snd (filter (\<lambda>s. f0 - w \<le> fst s \<and> fst s \<le> f0 + w) curve) = [1, 5, 2]
      \<longrightarrow> value_at (map fst curve) (map snd curve) f0 w = Inr 5)"
proof (intro conjI impI)
  assume w: "\<exists>s \<in> set curve. f0 - w \<le> fst s \<and> fst s \<le> f0 + w"
  have "set (map snd (filter (\<lambda>s. f0 - w \<le> fst s \<and> fst s \<le> f0 + w) curve))
          = {snd s | s. s \<in> set curve \<and> f0 - w \<le> fst s \<and> fst s \<le> f0 + w}"
    by force
  with value_at_in_window [OF w]
  show "value_at (map fst curve) (map snd curve) f0 w
          = Inr (Max {snd s | s. s \<in> set curve \<and> f0 - w \<le> fst s \<and> fst s \<le> f0 + w})"
    by simp
next
  assume "curve \<noteq> [] \<and> \<not> (\<exists>s \<in> set curve. f0 - w \<le> fst s \<and> fst s \<le> f0 + w)"
  then obtain i where i: "first_min (map (\<lambda>s. \<bar>fst s - f0\<bar>) curve) (length curve) i"
    and v: "value_at (map fst curve) (map snd curve) f0 w = Inr (snd (curve ! i))"
    using value_at_fallback [of curve f0 w] by blast
  from i have lt: "i < length curve" by (simp add: first_min_def)
  from i lt have "\<forall>j < length curve. \<bar>fst (curve ! i) - f0\<bar> \<le> \<bar>fst (curve ! j) - f0\<bar>"
    by (simp add: first_min_def)
  moreover from i lt have "\<forall>j < i. \<bar>fst (curve ! i) - f0\<bar> < \<bar>fst (curve ! j) - f0\<bar>"
    by (simp add: first_min_def)
  ultimately show "\<exists>i < length curve.
             value_at (map fst curve) (map snd curve) f0 w = Inr (snd (curve ! i))
             \<and> (\<forall>j < length curve. \<bar>fst (curve ! i) - f0\<bar> \<le> \<bar>fst (curve ! j) - f0\<bar>)
             \<and> (\<forall>j < i. \<bar>fst (curve ! i) - f0\<bar> < \<bar>fst (curve ! j) - f0\<bar>)"
    using lt v by blast
next
  assume e: "map snd (filter (\<lambda>s. f0 - w \<le> fst s \<and> fst s \<le> f0 + w) curve) = [1, 5, 2]"
  then have "filter (\<lambda>s. f0 - w \<le> fst s \<and> fst s \<le> f0 + w) curve \<noteq> []" by auto
  then have "\<exists>s \<in> set curve. f0 - w \<le> fst s \<and> fst s \<le> f0 + w"
    by (simp add: filter_empty_conv)
  from value_at_in_window [OF this] e
  show "value_at (map fst curve) (map snd curve) f0 w = Inr 5" by simp
qed

theorem value_at_window_max_or_closest_witness:
  "map snd (filter (\<lambda>s. 2 - 1 \<le> fst s \<and> fst s \<le> 2 + 1) [(1, 1), (2, 5), (3, 2), (10 :: real, 7 :: real)])
     = [1, 5, 2]
   \<and> value_at [1, 2, 3, 10] [1, 5, 2, 7] 2 1 = Inr 5
   \<and> list_all (\<lambda>s. \<not> (13 / 2 - 1 \<le> fst s \<and> fst s \<le> 13 / 2 + 1))
         [(1, 1), (2, 5), (3, 2), (10 :: real, 7 :: real)]
   \<and> value_at [1, 2, 3, 10] [1, 5, 2, 7] (13 / 2) 1 = Inr 2"
proof -
  let ?c = "[(1, 1), (2, 5), (3, 2), (10 :: real, 7 :: real)]"
  have w: "map snd (filter (\<lambda>s. 2 - 1 \<le> fst s \<and> fst s \<le> 2 + 1) ?c) = [1, 5, 2]" by simp
  with value_at_window_max_or_closest [of ?c 2 1, THEN conjunct2, THEN conjunct2]
  have r1: "value_at [1, 2, 3, 10] [1, 5, 2, 7] 2 1 = Inr 5" by simp
  have h: "list_all (\<lambda>s. \<not> (13 / 2 - 1 \<le> fst s \<and> fst s \<le> 13 / 2 + 1)) ?c" by simp
  then have "?c \<noteq> [] \<and> \<not> (\<exists>s \<in> set ?c. 13 / 2 - 1 \<le> fst s \<and> fst s \<le> 13 / 2 + 1)"
    by simp
  with value_at_window_max_or_closest [of ?c "13 / 2" 1]
  obtain i where i: "i < length ?c"
    and v: "value_at (map fst ?c) (map snd ?c) (13 / 2) 1 = Inr (snd (?c ! i))"
    and le: "\<forall>j < length ?c. \<bar>fst (?c ! i) - 13 / 2\<bar> \<le> \<bar>fst (?c ! j) - 13 / 2\<bar>"
    and first: "\<forall>j < i. \<bar>fst (?c ! i) - 13 / 2\<bar> < \<bar>fst (?c ! j) - 13 / 2\<bar>"
    by blast
  from i have cases: "i = 0 \<or> i = 1 \<or> i = 2 \<or> i = 3" by auto
  have le2: "\<bar>fst (?c ! i) - 13 / 2\<bar> \<le> \<bar>fst (?c ! 2) - 13 / 2\<bar>"
    by (rule le [rule_format]) simp
  have "i = 2"
  proof (rule ccontr)
    assume "i \<noteq> 2"
    with cases have "i = 0 \<or> i = 1 \<or> i = 3" by simp
    then show False
    proof (elim disjE)
      assume "i = 0" with le2 show False by simp
    next
      assume "i = 1" with le2 show False by simp
    next
      assume "i = 3"
      with first [rule_format, of 2]
      have "\<bar>fst (?c ! 3) - 13 / 2\<bar> < \<bar>fst (?c ! 2) - 13 / 2\<bar>" by simp
      then show False by simp
    qed
  qed
  with v have r2: "value_at [1, 2, 3, 10] [1, 5, 2, 7] (13 / 2) 1 = Inr 2" by simp
  from w r1 h r2 show ?thesis by blast
qed

lemma corner_loop_two:
  assumes "dfs self (channel_key p ''X'' ''x'') = Some dXx"
    and "dfs self (channel_key p ''X'' ''y'') = Some dXy"
    and "dfs self (channel_key p ''Y'' ''x'') = Some dYx"
    and "dfs self (channel_key p ''Y'' ''y'') = Some dYy"
    and "value_at (map fst dXx) (map snd dXx) f0 (spin_win self) = Inr a"
    and "value_at (map fst dXy) (map snd dXy) f0 (spin_win self) = Inr b"
    and "value_at (map fst dYx) (map snd dYx) f0 (spin_win self) = Inr c"
    and "value_at (map fst dYy) (map snd dYy) f0 (spin_win self) = Inr d"
  shows "corner_loop self p f0 [''X'', ''Y''] (0, 0) = Inr (a + c, b + d)"
  using assms by simp

lemma channel_key_1:
  "channel_key 1 ''X'' ''x'' = ''P1_X_x''" "channel_key 1 ''X'' ''y'' = ''P1_X_y''"
  "channel_key 1 ''Y'' ''x'' = ''P1_Y_x''" "channel_key 1 ''Y'' ''y'' = ''P1_Y_y''"
  by (simp_all add: channel_key_def str_int_def str_nat.simps digit_char_def)

lemma value_at_single: "value_at [1] [v] 1 1 = Inr v"
  by (simp add: value_at_def mask_select_def np_max_def)

text \<open>
  C8. For a corner whose four curves are in the dictionary, \<open>corner_vector\<close> is 0.5 times
  the sum, over the excitation directions X and Y, of the pair (\<open>value_at\<close> of the
  x-measurement curve, \<open>value_at\<close> of the y-measurement curve) at the target frequency and
  the window of the spin box; when the four curves have samples, the four look-ups and so
  \<open>corner_vector\<close> return a value.
\<close>

theorem corner_vector_half_sum:
  assumes "dfs self (channel_key p ''X'' ''x'') = Some dXx"
    and "dfs self (channel_key p ''X'' ''y'') = Some dXy"
    and "dfs self (channel_key p ''Y'' ''x'') = Some dYx"
    and "dfs self (channel_key p ''Y'' ''y'') = Some dYy"
  shows "(\<forall>a b c d.
            value_at (map fst dXx) (map snd dXx) f0 (spin_win self) = Inr a
          \<and> value_at (map fst dXy) (map snd dXy) f0 (spin_win self) = Inr b
          \<and> value_at (map fst dYx) (map snd dYx) f0 (spin_win self) = Inr c
          \<and> value_at (map fst dYy) (map snd dYy) f0 (spin_win self) = Inr d
          \<longrightarrow> corner_vector self p f0 = Inr (0.5 * (a + c), 0.5 * (b + d)))
       \<and> (dXx \<noteq> [] \<and> dXy \<noteq> [] \<and> dYx \<noteq> [] \<and> dYy \<noteq> []
          \<longrightarrow> (\<exists>v. corner_vector self p f0 = Inr v))"
proof -
  have main: "corner_vector self p f0 = Inr (0.5 * (a + c), 0.5 * (b + d))"
    if "value_at (map fst dXx) (map snd dXx) f0 (spin_win self) = Inr a"
      and "value_at (map fst dXy) (map snd dXy) f0 (spin_win self) = Inr b"
      and "value_at (map fst dYx) (map snd dYx) f0 (spin_win self) = Inr c"
      and "value_at (map fst dYy) (map snd dYy) f0 (spin_win self) = Inr d"
    for a b c d
    using corner_loop_two [OF assms that] by (simp add: corner_vector_def)
  have "\<exists>v. corner_vector self p f0 = Inr v"
    if ne: "dXx \<noteq> [] \<and> dXy \<noteq> [] \<and> dYx \<noteq> [] \<and> dYy \<noteq> []"
  proof -
    from ne obtain a b c d where
      "value_at (map fst dXx) (map snd dXx) f0 (spin_win self) = Inr a"
      "value_at (map fst dXy) (map snd dXy) f0 (spin_win self) = Inr b"
      "value_at (map fst dYx) (map snd dYx) f0 (spin_win self) = Inr c"
      "value_at (map fst dYy) (map snd dYy) f0 (spin_win self) = Inr d"
      using value_at_total [of dXx f0 "spin_win self"] value_at_total [of dXy f0 "spin_win self"]
        value_at_total [of dYx f0 "spin_win self"] value_at_total [of dYy f0 "spin_win self"]
      by blast
    then have "corner_vector self p f0 = Inr (0.5 * (a + c), 0.5 * (b + d))" by (rule main)
    then show ?thesis by blast
  qed
  with main show ?thesis by blast
qed

theorem corner_vector_half_sum_witness:
  "dfs corner1_rig (channel_key 1 ''X'' ''x'') = Some [(1, 2)]
   \<and> dfs corner1_rig (channel_key 1 ''X'' ''y'') = Some [(1, 4)]
   \<and> dfs corner1_rig (channel_key 1 ''Y'' ''x'') = Some [(1, 6)]
   \<and> dfs corner1_rig (channel_key 1 ''Y'' ''y'') = Some [(1, 8)]
   \<and> value_at [1] [2] 1 (spin_win corner1_rig) = Inr 2
   \<and> value_at [1] [4] 1 (spin_win corner1_rig) = Inr 4
   \<and> value_at [1] [6] 1 (spin_win corner1_rig) = Inr 6
   \<and> value_at [1] [8] 1 (spin_win corner1_rig) = Inr 8
   \<and> corner_vector corner1_rig 1 1 = Inr (4, 6)"
proof -
  have k: "dfs corner1_rig (channel_key 1 ''X'' ''x'') = Some [(1, 2)]"
    "dfs corner1_rig (channel_key 1 ''X'' ''y'') = Some [(1, 4)]"
    "dfs corner1_rig (channel_key 1 ''Y'' ''x'') = Some [(1, 6)]"
    "dfs corner1_rig (channel_key 1 ''Y'' ''y'') = Some [(1, 8)]"
    by (simp_all add: channel_key_1 corner1_rig_def)
  have w: "spin_win corner1_rig = 1" by (simp add: corner1_rig_def)
  have v: "value_at [1] [2] 1 (spin_win corner1_rig) = Inr 2"
    "value_at [1] [4] 1 (spin_win corner1_rig) = Inr 4"
    "value_at [1] [6] 1 (spin_win corner1_rig) = Inr 6"
    "value_at [1] [8] 1 (spin_win corner1_rig) = Inr 8"
    by (simp_all add: w value_at_single)
  from corner_vector_half_sum [OF k, of 1] v
  have "corner_vector corner1_rig 1 1 = Inr (4, 6)" by simp
  with k v show ?thesis by blast
qed

lemma norm2_scale: "0 < d \<Longrightarrow> norm2 (fst v / d, snd v / d) = norm2 v / d"
proof -
  assume d: "0 < d"
  have "(fst v / d)\<^sup>2 + (snd v / d)\<^sup>2 = ((fst v)\<^sup>2 + (snd v)\<^sup>2) / d\<^sup>2"
    by (simp add: power_divide add_divide_distrib)
  then have "norm2 (fst v / d, snd v / d) = sqrt (((fst v)\<^sup>2 + (snd v)\<^sup>2) / d\<^sup>2)"
    by (simp add: norm2_def)
  also have "\<dots> = sqrt ((fst v)\<^sup>2 + (snd v)\<^sup>2) / \<bar>d\<bar>"
    by (simp add: real_sqrt_divide)
  finally show ?thesis using d by (simp add: norm2_def)
qed

lemma norm2_axis: "norm2 (x, 0) = \<bar>x\<bar>" "norm2 (0, y) = \<bar>y\<bar>"
  by (simp_all add: norm2_def)

lemma divisor_pos: "0 < divisor u"
proof (cases "Max (norm2 ` set u) < 1 / 10 ^ 12")
  case True
  then show ?thesis by (simp add: divisor_def)
next
  case False
  have "(0::real) < 1 / 10 ^ 12" by simp
  with False have "0 < Max (norm2 ` set u)" by linarith
  with False show ?thesis by (simp add: divisor_def)
qed

lemma normalize_field_eq:
  "u \<noteq> [] \<Longrightarrow> normalize_field u = Inr (map (\<lambda>v. (fst v / divisor u, snd v / divisor u)) u)"
  using np_max_Max [of "map norm2 u"] by (simp add: normalize_field_def divisor_def Let_def)

lemma normalized_norms:
  "map norm2 (map (\<lambda>v. (fst v / divisor u, snd v / divisor u)) u)
     = map (\<lambda>x. x / divisor u) (map norm2 u)"
  by (simp add: norm2_scale [OF divisor_pos] comp_def)

lemma normalize_field_small:
  "u \<noteq> [] \<Longrightarrow> Max (norm2 ` set u) < 1 / 10 ^ 12 \<Longrightarrow> normalize_field u = Inr u"
  by (simp add: normalize_field_eq divisor_def)

lemma normalize_field_example:
  assumes "map norm2 u = [1 / 2, 2, 1]"
  shows "\<exists>un. normalize_field u = Inr un \<and> map norm2 un = [1 / 4, 1, 1 / 2]"
proof -
  from assms have ne: "u \<noteq> []" by auto
  from assms have "set (map norm2 u) = {1 / 2, 2, 1}" by simp
  then have "norm2 ` set u = {1 / 2, 2, 1}" by simp
  then have "divisor u = 2" by (simp add: divisor_def)
  with assms normalized_norms [of u]
  have "map norm2 (map (\<lambda>v. (fst v / divisor u, snd v / divisor u)) u) = [1 / 4, 1, 1 / 2]"
    by simp
  with normalize_field_eq [OF ne] show ?thesis by simp
qed

text \<open>In \<open>draw_mode\<close> the field holds the four corner vectors, so it is never empty.\<close>

lemma corner_vectors_length:
  "corner_vectors self f0 ps = Inr u \<Longrightarrow> length u = length ps"
  by (induction ps arbitrary: u) (auto split: sum.splits)

lemma draw_mode_field_normalized:
  assumes "corner_vectors self f0 [1, 2, 3, 4] = Inr u"
  shows "u \<noteq> []"
    and "draw_mode_u_norm self f0 = Inr (map (\<lambda>v. (fst v / divisor u, snd v / divisor u)) u)"
proof -
  from corner_vectors_length [OF assms] show ne: "u \<noteq> []" by auto
  from assms normalize_field_eq [OF ne]
  show "draw_mode_u_norm self f0 = Inr (map (\<lambda>v. (fst v / divisor u, snd v / divisor u)) u)"
    by (simp add: draw_mode_u_norm_def)
qed

text \<open>
  C9. On a field with at least one vector (in \<open>draw_mode\<close> there are four), the
  normalisation divides every vector by the divisor: the maximum Euclidean norm, or 1 when
  that maximum is below \<open>1e-12\<close>. The norm of each vector is divided by the same number.
  The divisor is positive, so nothing is divided by zero; a field whose maximum norm is
  below the epsilon is returned as it is. A field with the norms 1/2, 2, 1 is normalised to
  one with the norms 1/4, 1, 1/2.
\<close>

theorem normalize_field_divides_by_max_norm:
  "(u \<noteq> [] \<longrightarrow>
      normalize_field u = Inr (map (\<lambda>v. (fst v / divisor u, snd v / divisor u)) u)
      \<and> map norm2 (map (\<lambda>v. (fst v / divisor u, snd v / divisor u)) u)
          = map (\<lambda>x. x / divisor u) (map norm2 u))
   \<and> 0 < divisor u
   \<and> (u \<noteq> [] \<and> Max (norm2 ` set u) < 1 / 10 ^ 12 \<longrightarrow> normalize_field u = Inr u)
   \<and> (map norm2 u = [1 / 2, 2, 1]
        \<longrightarrow> (\<exists>un. normalize_field u = Inr un \<and> map norm2 un = [1 / 4, 1, 1 / 2]))"
  using normalize_field_eq [of u] normalized_norms [of u] divisor_pos [of u]
    normalize_field_small [of u] normalize_field_example [of u]
  by blast

theorem normalize_field_divides_by_max_norm_witness:
  "map norm2 [(1 / 2, 0), (0, 2), (1, 0)] = [1 / 2, 2, 1]
   \<and> normalize_field [(1 / 2, 0), (0, 2), (1, 0)] = Inr [(1 / 4, 0), (0, 1), (1 / 2, 0)]
   \<and> map norm2 [(1 / 4, 0), (0, 1), (1 / 2, 0)] = [1 / 4, 1, 1 / 2]
   \<and> Max (norm2 ` set [(0, 0), (1 / 10 ^ 13, 0)]) < 1 / 10 ^ 12
   \<and> normalize_field [(0, 0), (1 / 10 ^ 13, 0)] = Inr [(0, 0), (1 / 10 ^ 13, 0)]"
proof -
  let ?u = "[(1 / 2, 0), (0, 2), (1, 0)] :: (real \<times> real) list"
  let ?z = "[(0, 0), (1 / 10 ^ 13, 0)] :: (real \<times> real) list"
  note T = normalize_field_divides_by_max_norm
  have n: "map norm2 ?u = [1 / 2, 2, 1]" by (simp add: norm2_axis)
  have "norm2 ` set ?u = {1 / 2, 2, 1}" by (simp add: norm2_axis)
  then have d: "divisor ?u = 2" by (simp add: divisor_def)
  from T [of ?u] have "normalize_field ?u = Inr (map (\<lambda>v. (fst v / divisor ?u, snd v / divisor ?u)) ?u)"
    by simp
  then have r1: "normalize_field ?u = Inr [(1 / 4, 0), (0, 1), (1 / 2, 0)]"
    by (simp add: d)
  have r2: "map norm2 [(1 / 4, 0), (0, 1), (1 / 2, 0)] = [1 / 4, 1, 1 / 2]"
    by (simp add: norm2_axis)
  have "norm2 ` set ?z = {0, 1 / 10 ^ 13}" by (simp add: norm2_axis)
  then have z: "Max (norm2 ` set ?z) < 1 / 10 ^ 12" by simp
  have r3: "normalize_field ?z = Inr ?z"
  proof (rule T [of ?z, THEN conjunct2, THEN conjunct2, THEN conjunct1, THEN mp])
    from z show "?z \<noteq> [] \<and> Max (norm2 ` set ?z) < 1 / 10 ^ 12" by blast
  qed
  from n r1 r2 z r3 show ?thesis by blast
qed

end
